theory Spec2Isabelle
  imports Main "HOL-Library.Word" "HOL-Library.Signed_Division"
begin

section \<open>Go runtime values\<close>

text \<open>
  Go's \<^verbatim>\<open>int\<close> and \<^verbatim>\<open>uint64\<close> are 64-bit machine integers on the platforms the
  load balancer runs on: \<^verbatim>\<open>uint64\<close> arithmetic wraps around, \<^verbatim>\<open>int\<close> is read in two's
  complement with \<open>sint\<close>, and \<^verbatim>\<open>/\<close> on \<^verbatim>\<open>int\<close> truncates towards zero (\<open>sdiv\<close>).
  A run-time panic (an index out of range, an integer division by zero) is a value.
\<close>

type_synonym go_int = "64 word"
type_synonym uint64 = "64 word"

datatype go_panic = IndexOutOfRange | DivideByZero

section \<open>backend.go: Backend\<close>

text \<open>
  A \<^verbatim>\<open>*url.URL\<close> is modelled by the string \<^verbatim>\<open>URL.String()\<close> yields, the only way the
  program reads it. A \<^verbatim>\<open>*httputil.ReverseProxy\<close> built by \<^verbatim>\<open>createProxy(u)\<close> is modelled
  by the URL \<open>u\<close> its closure captures. The mutex only serialises accesses to \<open>Alive\<close>.
  The field \<open>WsReverseProxy\<close> is the one \<^verbatim>\<open>main\<close> fills with \<^verbatim>\<open>createProxy(wsServerUrl)\<close>.
\<close>

record Backend =
  URL :: string
  Alive :: bool
  ReverseProxy :: string
  WsReverseProxy :: string

definition SetAlive :: "Backend \<Rightarrow> bool \<Rightarrow> Backend" where
  "SetAlive b alive = b\<lparr>Alive := alive\<rparr>"

definition IsAlive :: "Backend \<Rightarrow> bool" where
  "IsAlive b = Alive b"

section \<open>serverpool.go: ServerPool\<close>

text \<open>
  The pool holds \<^verbatim>\<open>[]*Backend\<close>. Every pointer in it is created once, in \<^verbatim>\<open>main\<close>, and
  never removed, so a \<^verbatim>\<open>*Backend\<close> handed out by the pool is modelled by the position of
  that backend in \<open>backends\<close>, and writing through the pointer updates the list in place.
\<close>

record ServerPool =
  backends :: "Backend list"
  current :: uint64

type_synonym peer = nat

definition AddBackend :: "ServerPool \<Rightarrow> Backend \<Rightarrow> ServerPool" where
  "AddBackend s backend = s\<lparr>backends := backends s @ [backend]\<rparr>"

text \<open>
  \<^verbatim>\<open>NextIndex\<close>: the atomic add happens first and wraps at \<open>2 ^ 64\<close>; the remainder by
  the pool size panics on an empty pool, after the cursor has been advanced.
\<close>

definition NextIndex :: "ServerPool \<Rightarrow> (go_panic + nat) \<times> ServerPool" where
  "NextIndex s =
     (let s' = s\<lparr>current := current s + 1\<rparr>
      in if length (backends s') = 0 then (Inl DivideByZero, s')
         else (Inr (unat (current s') mod length (backends s')), s'))"

fun MarkBackendStatus_loop :: "Backend list \<Rightarrow> string \<Rightarrow> bool \<Rightarrow> Backend list" where
  "MarkBackendStatus_loop [] backendUrl alive = []"
| "MarkBackendStatus_loop (b # bs) backendUrl alive =
     (if URL b = backendUrl then SetAlive b alive # bs
      else b # MarkBackendStatus_loop bs backendUrl alive)"

definition MarkBackendStatus :: "ServerPool \<Rightarrow> string \<Rightarrow> bool \<Rightarrow> ServerPool" where
  "MarkBackendStatus s backendUrl alive =
     s\<lparr>backends := MarkBackendStatus_loop (backends s) backendUrl alive\<rparr>"

text \<open>
  The loop of \<^verbatim>\<open>GetNextPeer\<close>, \<^verbatim>\<open>for i := next; i < l; i++\<close>, with the loop variable as
  an argument. It is only entered on a non-empty pool.
\<close>

function GetNextPeer_loop :: "ServerPool \<Rightarrow> nat \<Rightarrow> nat \<Rightarrow> nat \<Rightarrow> peer option \<times> ServerPool" where
  "GetNextPeer_loop s next l i =
     (if i < l then
        (let idx = i mod length (backends s)
         in if IsAlive (backends s ! idx) then
              (Some idx, if i \<noteq> next then s\<lparr>current := of_nat idx\<rparr> else s)
            else GetNextPeer_loop s next l (i + 1))
      else (None, s))"
  by pat_completeness auto
termination
  by (relation "measure (\<lambda>(s, next, l, i). l - i)") auto

declare GetNextPeer_loop.simps [simp del]

definition GetNextPeer :: "ServerPool \<Rightarrow> (go_panic + peer option) \<times> ServerPool" where
  "GetNextPeer s =
     (case NextIndex s of
        (Inl e, s') \<Rightarrow> (Inl e, s')
      | (Inr next, s') \<Rightarrow>
          (let l = length (backends s') + next
           in case GetNextPeer_loop s' next l next of (r, s'') \<Rightarrow> (Inr r, s'')))"

text \<open>
  \<^verbatim>\<open>GetPeer\<close>: \<^verbatim>\<open>roomId - 1\<close> wraps in 64 bits, the division truncates towards zero, the
  guard is \<^verbatim>\<open>serverId <= len(s.backends)\<close>, and the slice access panics outside
  \<open>0 \<le> serverId < len\<close>.
\<close>

definition serverId :: "go_int \<Rightarrow> int" where
  "serverId roomId = sint (roomId - 1) sdiv 10000"

definition GetPeer :: "ServerPool \<Rightarrow> go_int \<Rightarrow> go_panic + peer option" where
  "GetPeer s roomId =
     (if serverId roomId \<le> int (length (backends s)) then
        (if 0 \<le> serverId roomId \<and> serverId roomId < int (length (backends s))
         then Inr (Some (nat (serverId roomId)))
         else Inl IndexOutOfRange)
      else Inr None)"

text \<open>Consecutive round-robin selections on one pool, results in call order.\<close>

fun selections :: "nat \<Rightarrow> ServerPool \<Rightarrow> (go_panic + peer option) list \<times> ServerPool" where
  "selections 0 s = ([], s)"
| "selections (Suc n) s =
     (case GetNextPeer s of (r, s') \<Rightarrow>
        (case selections n s' of (rs, s'') \<Rightarrow> (r # rs, s'')))"

section \<open>Library functions the dispatcher calls\<close>

subsection \<open>regexp: unanchored search\<close>

text \<open>
  The fragment of Go's regular expressions the two route patterns use: literals, a
  character range, \<^verbatim>\<open>.\<close> (any character but a newline), concatenation, \<^verbatim>\<open>+\<close> and
  \<^verbatim>\<open>*\<close>. \<open>Alt\<close>, \<open>Eps\<close> and \<open>Fail\<close> only arise as residuals. \<^verbatim>\<open>MatchString\<close> reports whether
  the string \<^emph>\<open>contains\<close> a match: the search is not anchored at either end.
\<close>

datatype re =
    Fail
  | Eps
  | Lit char
  | Range char char
  | AnyNotNL
  | Cat re re
  | Alt re re
  | Star re
  | Plus re

fun accepts_empty :: "re \<Rightarrow> bool" where
  "accepts_empty Fail = False"
| "accepts_empty Eps = True"
| "accepts_empty (Lit c) = False"
| "accepts_empty (Range lo hi) = False"
| "accepts_empty AnyNotNL = False"
| "accepts_empty (Cat a b) = (accepts_empty a \<and> accepts_empty b)"
| "accepts_empty (Alt a b) = (accepts_empty a \<or> accepts_empty b)"
| "accepts_empty (Star a) = True"
| "accepts_empty (Plus a) = accepts_empty a"

fun residual :: "char \<Rightarrow> re \<Rightarrow> re" where
  "residual c Fail = Fail"
| "residual c Eps = Fail"
| "residual c (Lit d) = (if c = d then Eps else Fail)"
| "residual c (Range lo hi) =
     (if of_char lo \<le> (of_char c :: nat) \<and> (of_char c :: nat) \<le> of_char hi then Eps else Fail)"
| "residual c AnyNotNL = (if c = CHR 0x0A then Fail else Eps)"
| "residual c (Cat a b) =
     (if accepts_empty a then Alt (Cat (residual c a) b) (residual c b)
      else Cat (residual c a) b)"
| "residual c (Alt a b) = Alt (residual c a) (residual c b)"
| "residual c (Star a) = Cat (residual c a) (Star a)"
| "residual c (Plus a) = Cat (residual c a) (Star a)"

text \<open>\<open>match_prefix r s\<close>: some prefix of \<open>s\<close> matches \<open>r\<close>.\<close>

fun match_prefix :: "re \<Rightarrow> string \<Rightarrow> bool" where
  "match_prefix r [] = accepts_empty r"
| "match_prefix r (c # cs) = (accepts_empty r \<or> match_prefix (residual c r) cs)"

fun MatchString :: "re \<Rightarrow> string \<Rightarrow> bool" where
  "MatchString r [] = accepts_empty r"
| "MatchString r (c # cs) = (match_prefix r (c # cs) \<or> MatchString r cs)"


text \<open>A pattern is parsed into one flat concatenation of its pieces.\<close>

fun seq :: "re list \<Rightarrow> re" where
  "seq [] = Eps"
| "seq (a # as) = Cat a (seq as)"

subsection \<open>strings.Split and strconv.Atoi\<close>

text \<open>\<^verbatim>\<open>strings.Split(s, sep)\<close> for a one-character separator.\<close>

fun Split :: "string \<Rightarrow> char \<Rightarrow> string list" where
  "Split [] sep = [[]]"
| "Split (c # cs) sep =
     (if c = sep then [] # Split cs sep
      else (case Split cs sep of [] \<Rightarrow> [[c]] | x # xs \<Rightarrow> (c # x) # xs))"

text \<open>
  \<^verbatim>\<open>strconv.Atoi\<close>: an optional sign, then decimal digits only. A syntax error yields
  0; a numeral outside the 64-bit range yields the nearest bound, with a range error.
\<close>

datatype num_error = ErrSyntax | ErrRange

definition is_digit :: "char \<Rightarrow> bool" where
  "is_digit c = (48 \<le> (of_char c :: nat) \<and> (of_char c :: nat) \<le> 57)"

fun decimal :: "nat \<Rightarrow> string \<Rightarrow> nat" where
  "decimal n [] = n"
| "decimal n (c # cs) = decimal (n * 10 + ((of_char c :: nat) - 48)) cs"

definition Atoi :: "string \<Rightarrow> go_int \<times> num_error option" where
  "Atoi s =
     (let neg = (case s of [] \<Rightarrow> False | c # cs \<Rightarrow> c = CHR ''-'');
          ds = (case s of [] \<Rightarrow> [] | c # cs \<Rightarrow> if c = CHR ''-'' \<or> c = CHR ''+'' then cs else s)
      in if ds = [] then (0, Some ErrSyntax)
         else if list_all is_digit ds then
           (let n = decimal 0 ds
            in if 2 ^ 63 < n then
                 (if neg then - of_nat (2 ^ 63) else of_nat (2 ^ 63 - 1), Some ErrRange)
               else if 2 ^ 63 = n then
                 (if neg then (- of_nat n, None) else (of_nat (2 ^ 63 - 1), Some ErrRange))
               else (if neg then - of_nat n else of_nat n, None))
         else (0, Some ErrSyntax))"

section \<open>main.go: the dispatcher\<close>

text \<open>
  A request carries its path and its context, a map from the keys \<^verbatim>\<open>Attempts\<close> (0) and
  \<^verbatim>\<open>Retry\<close> (1) to the stored counters. The counters a request can reach from an
  inbound one stay between 0 and 4, so they are modelled as \<open>int\<close>.
\<close>

record Request =
  Path :: string
  Context :: "nat \<rightharpoonup> int"

definition Attempts :: nat where "Attempts = 0"
definition Retry :: nat where "Retry = 1"

definition WithValue :: "Request \<Rightarrow> nat \<Rightarrow> int \<Rightarrow> Request" where
  "WithValue r key v = r\<lparr>Context := (Context r)(key \<mapsto> v)\<rparr>"

definition GetAttemptsFromContext :: "Request \<Rightarrow> int" where
  "GetAttemptsFromContext r = (case Context r Attempts of Some attempts \<Rightarrow> attempts | None \<Rightarrow> 1)"

definition GetRetryFromContext :: "Request \<Rightarrow> int" where
  "GetRetryFromContext r = (case Context r Retry of Some retry \<Rightarrow> retry | None \<Rightarrow> 0)"

text \<open>An inbound request, as the HTTP server hands it to \<^verbatim>\<open>lb\<close>: neither key is set.\<close>

definition inbound :: "string \<Rightarrow> Request" where
  "inbound path = \<lparr>Path = path, Context = Map.empty\<rparr>"

definition digit :: re where
  "digit = Range CHR ''0'' CHR ''9''"

definition roomAction :: re where
  "roomAction =
     seq (map Lit ''/room/'' @ [Plus digit, Star (seq [Lit CHR ''/'', Plus AnyNotNL])])"

definition roomConnection :: re where
  "roomConnection = seq (map Lit ''/ws/'' @ [digit])"

text \<open>
  What one request does to the world: the pool, the log of forwarding attempts (the
  URL of the proxy each went through, in order) and what was written to the client's
  \<^verbatim>\<open>ResponseWriter\<close>: an upstream response copied by a proxy, or a call of
  \<^verbatim>\<open>http.Error\<close> with its status code and message.
\<close>

datatype written = Upstream string | HttpError nat string

record World =
  pool :: ServerPool
  forwards :: "string list"
  response :: "written list"

definition http_Error :: "World \<Rightarrow> string \<Rightarrow> nat \<Rightarrow> World" where
  "http_Error w msg code = w\<lparr>response := response w @ [HttpError code msg]\<rparr>"

text \<open>
  The backend registered by \<^verbatim>\<open>main\<close> for one token of \<^verbatim>\<open>SERVER_LIST\<close>; \<open>secure\<close> is
  what \<^verbatim>\<open>getSecure()\<close> returns.
\<close>

definition newBackend :: "string \<Rightarrow> string \<Rightarrow> Backend" where
  "newBackend secure tok =
     \<lparr>URL = ''http'' @ secure @ ''://'' @ tok,
      Alive = True,
      ReverseProxy = ''http'' @ secure @ ''://'' @ tok,
      WsReverseProxy = ''ws'' @ secure @ ''://'' @ tok\<rparr>"

definition main_pool :: "string \<Rightarrow> string list \<Rightarrow> ServerPool" where
  "main_pool secure tokens =
     foldl AddBackend \<lparr>backends = [], current = 0\<rparr> (map (newBackend secure) tokens)"

text \<open>
  The work a request may still cause: every re-dispatch raises \<^verbatim>\<open>Attempts\<close>, every
  retry raises \<^verbatim>\<open>Retry\<close>. It is the termination measure of the dispatcher.
\<close>

definition budget :: "Request \<Rightarrow> nat" where
  "budget r = nat (4 - GetAttemptsFromContext r) * 20 + nat (3 - GetRetryFromContext r) * 4"

text \<open>
  \<^verbatim>\<open>lb\<close>, the two \<^verbatim>\<open>Serve\<close> methods of a backend, \<^verbatim>\<open>ReverseProxy.ServeHTTP\<close> of a proxy
  built by \<^verbatim>\<open>createProxy(u)\<close> and its \<^verbatim>\<open>ErrorHandler\<close> call one another. \<open>up k\<close> says
  whether the \<open>k\<close>-th forwarding attempt of the run (counted from 0) reaches its upstream;
  \<open>apiPrefix\<close> is the value of \<^verbatim>\<open>API_PREFIX\<close>. A panic unwinds every caller.
\<close>

text \<open>
  Modelled from the spec: \<open>Backend_ServeWS\<close>, the method \<^verbatim>\<open>ServeWS\<close> of \<^verbatim>\<open>Backend\<close> that
  \<^verbatim>\<open>lb\<close> calls and the sources do not contain. By section 4.1 a backend's forward
  "delegates to the appropriate forwarding handle (plain or upgraded) chosen by the
  caller": \<^verbatim>\<open>ServeWS\<close> delegates to \<open>WsReverseProxy\<close>, the handle \<^verbatim>\<open>main\<close> creates for the
  \<^verbatim>\<open>ws://\<close> URL, as \<^verbatim>\<open>ServeHTTP\<close> delegates to \<open>ReverseProxy\<close>.
\<close>

function
  lb :: "(nat \<Rightarrow> bool) \<Rightarrow> string \<Rightarrow> Request \<Rightarrow> World \<Rightarrow> go_panic option \<times> World" and
  Backend_ServeHTTP :: "(nat \<Rightarrow> bool) \<Rightarrow> string \<Rightarrow> peer \<Rightarrow> Request \<Rightarrow> World \<Rightarrow> go_panic option \<times> World" and
  Backend_ServeWS :: "(nat \<Rightarrow> bool) \<Rightarrow> string \<Rightarrow> peer \<Rightarrow> Request \<Rightarrow> World \<Rightarrow> go_panic option \<times> World" and
  proxy_ServeHTTP :: "(nat \<Rightarrow> bool) \<Rightarrow> string \<Rightarrow> string \<Rightarrow> Request \<Rightarrow> World \<Rightarrow> go_panic option \<times> World" and
  ErrorHandler :: "(nat \<Rightarrow> bool) \<Rightarrow> string \<Rightarrow> string \<Rightarrow> Request \<Rightarrow> World \<Rightarrow> go_panic option \<times> World"
where
  "lb up apiPrefix r w =
     (let attempts = GetAttemptsFromContext r
      in if attempts > 3 then (None, http_Error w ''Service not available'' 503)
         else
           (let path = Path r
            in if path = apiPrefix @ ''/room'' then
                 (case GetNextPeer (pool w) of
                    (Inl e, p') \<Rightarrow> (Some e, w\<lparr>pool := p'\<rparr>)
                  | (Inr (Some peer), p') \<Rightarrow> Backend_ServeHTTP up apiPrefix peer r (w\<lparr>pool := p'\<rparr>)
                  | (Inr None, p') \<Rightarrow>
                      (None, http_Error (w\<lparr>pool := p'\<rparr>) ''Service not available'' 503))
               else
                 (case (if MatchString roomAction path then Some ''ws''
                        else if MatchString roomConnection path then Some ''http''
                        else None) of
                    None \<Rightarrow> (None, http_Error w ''URL doesn't match any resource'' 404)
                  | Some scheme \<Rightarrow>
                      (let s = Split path CHR ''/''
                       in if length s \<le> 2 then (Some IndexOutOfRange, w)
                          else
                            (let roomId = fst (Atoi (s ! 2))
                             in case GetPeer (pool w) roomId of
                                  Inl e \<Rightarrow> (Some e, w)
                                | Inr None \<Rightarrow> (None, http_Error w ''Server doesn't exists'' 503)
                                | Inr (Some peer) \<Rightarrow>
                                    (case (if scheme = ''ws'' then
                                             Backend_ServeWS up apiPrefix peer r w
                                           else if scheme = ''http'' then
                                             Backend_ServeHTTP up apiPrefix peer r w
                                           else (None, w)) of
                                       (Some e, w') \<Rightarrow> (Some e, w')
                                     | (None, w') \<Rightarrow>
                                         (None, http_Error w' ''Service not available'' 503)))))))"
| "Backend_ServeHTTP up apiPrefix peer r w =
     proxy_ServeHTTP up apiPrefix (ReverseProxy (backends (pool w) ! peer)) r w"
| "Backend_ServeWS up apiPrefix peer r w =
     proxy_ServeHTTP up apiPrefix (WsReverseProxy (backends (pool w) ! peer)) r w"
| "proxy_ServeHTTP up apiPrefix u r w =
     (let k = length (forwards w);
          w' = w\<lparr>forwards := forwards w @ [u]\<rparr>
      in if up k then (None, w'\<lparr>response := response w' @ [Upstream u]\<rparr>)
         else ErrorHandler up apiPrefix u r w')"
| "ErrorHandler up apiPrefix u r w =
     (let retries = GetRetryFromContext r
      in if retries < 3 then proxy_ServeHTTP up apiPrefix u (WithValue r Retry (retries + 1)) w
         else
           (let w' = w\<lparr>pool := MarkBackendStatus (pool w) u False\<rparr>;
                attempts = GetAttemptsFromContext r
            in lb up apiPrefix (WithValue r Attempts (attempts + 1)) w'))"
  by pat_completeness auto

termination lb
proof (relation "measure (\<lambda>x. case x of
      Inl (Inl (up, p, r, w)) \<Rightarrow> (if GetAttemptsFromContext r > 3 then 0 else budget r + 4)
    | Inl (Inr (up, p, peer, r, w)) \<Rightarrow> budget r + 3
    | Inr (Inl (up, p, peer, r, w)) \<Rightarrow> budget r + 3
    | Inr (Inr (Inl (up, p, u, r, w))) \<Rightarrow> budget r + 2
    | Inr (Inr (Inr (up, p, u, r, w))) \<Rightarrow> budget r + 1)", goal_cases)
  case (8 up apiPrefix u r w x)
  then show ?case
    by (simp add: budget_def GetAttemptsFromContext_def GetRetryFromContext_def WithValue_def
        Attempts_def Retry_def)
next
  case (9 up apiPrefix u r w x xa xb)
  have "\<not> 3 \<le> a \<Longrightarrow> 3 + nat (3 - a) * 20 < nat (4 - a) * 20" for a :: int
    by arith
  with 9 show ?case
    by (simp add: budget_def GetAttemptsFromContext_def GetRetryFromContext_def WithValue_def
        Attempts_def Retry_def)
qed simp_all

declare lb.simps [simp del] Backend_ServeHTTP.simps [simp del] Backend_ServeWS.simps [simp del]
  proxy_ServeHTTP.simps [simp del] ErrorHandler.simps [simp del]

text \<open>The client sees the status of the first write to the \<^verbatim>\<open>ResponseWriter\<close>.\<close>

fun status :: "written list \<Rightarrow> nat option" where
  "status [] = None"
| "status (Upstream u # ws) = None"
| "status (HttpError code msg # ws) = Some code"

text \<open>The world in which a request arrives: nothing forwarded, nothing written yet.\<close>

definition serving :: "ServerPool \<Rightarrow> World" where
  "serving p = \<lparr>pool = p, forwards = [], response = []\<rparr>"



section \<open>The round-robin scan\<close>

lemma GetNextPeer_loop_done: "\<not> i < l \<Longrightarrow> GetNextPeer_loop s next l i = (None, s)"
  by (subst GetNextPeer_loop.simps) simp

lemma GetNextPeer_loop_hit:
  "i < l \<Longrightarrow> IsAlive (backends s ! (i mod length (backends s))) \<Longrightarrow>
   GetNextPeer_loop s next l i =
     (Some (i mod length (backends s)),
      if i \<noteq> next then s\<lparr>current := of_nat (i mod length (backends s))\<rparr> else s)"
  by (subst GetNextPeer_loop.simps) (simp add: Let_def)

lemma GetNextPeer_loop_skip:
  "i < l \<Longrightarrow> \<not> IsAlive (backends s ! (i mod length (backends s))) \<Longrightarrow>
   GetNextPeer_loop s next l i = GetNextPeer_loop s next l (i + 1)"
  by (subst GetNextPeer_loop.simps) (simp add: Let_def)

lemma GetNextPeer_loop_alive:
  "backends s \<noteq> [] \<Longrightarrow> GetNextPeer_loop s next l i = (Some idx, s') \<Longrightarrow>
   idx < length (backends s) \<and> Alive (backends s ! idx)"
proof (induction s "next" l i rule: GetNextPeer_loop.induct)
  case (1 s "next" l i)
  from "1.prems"(2) have lt: "i < l"
    by (cases "i < l") (simp_all add: GetNextPeer_loop_done)
  show ?case
  proof (cases "IsAlive (backends s ! (i mod length (backends s)))")
    case True
    from "1.prems"(2) have "idx = i mod length (backends s)"
      by (simp add: GetNextPeer_loop_hit [OF lt True])
    with True "1.prems"(1) show ?thesis by (simp add: IsAlive_def)
  next
    case False
    from "1.prems"(2) have "GetNextPeer_loop s next l (i + 1) = (Some idx, s')"
      by (simp add: GetNextPeer_loop_skip [OF lt False])
    with "1.IH" lt False "1.prems"(1) show ?thesis by simp
  qed
qed

lemma GetNextPeer_loop_all_dead:
  "\<forall>b\<in>set (backends s). \<not> Alive b \<Longrightarrow> backends s \<noteq> [] \<Longrightarrow>
   GetNextPeer_loop s next l i = (None, s)"
proof (induction s "next" l i rule: GetNextPeer_loop.induct)
  case (1 s "next" l i)
  show ?case
  proof (cases "i < l")
    case True
    have "i mod length (backends s) < length (backends s)" using "1.prems"(2) by simp
    then have dead: "\<not> IsAlive (backends s ! (i mod length (backends s)))"
      using "1.prems"(1) by (simp add: IsAlive_def)
    with True "1.IH" "1.prems" show ?thesis
      by (simp add: GetNextPeer_loop_skip [OF True dead])
  next
    case False
    then show ?thesis by (simp add: GetNextPeer_loop_done)
  qed
qed

text \<open>A scan that returns either found its backend at \<open>next\<close>, or stored its position.\<close>

lemma GetNextPeer_loop_store:
  "next \<le> i \<Longrightarrow> GetNextPeer_loop s next l i = (Some idx, s') \<Longrightarrow>
   (idx = next mod length (backends s) \<and> s' = s) \<or> s' = s\<lparr>current := of_nat idx\<rparr>"
proof (induction s "next" l i rule: GetNextPeer_loop.induct)
  case (1 s "next" l i)
  from "1.prems"(2) have lt: "i < l"
    by (cases "i < l") (simp_all add: GetNextPeer_loop_done)
  show ?case
  proof (cases "IsAlive (backends s ! (i mod length (backends s)))")
    case True
    from "1.prems"(2) show ?thesis
      by (auto simp: GetNextPeer_loop_hit [OF lt True] split: if_splits)
  next
    case False
    from "1.prems"(2) have "GetNextPeer_loop s next l (i + 1) = (Some idx, s')"
      by (simp add: GetNextPeer_loop_skip [OF lt False])
    with "1.IH" lt False "1.prems"(1) show ?thesis by simp
  qed
qed

lemma NextIndex_nonempty:
  "backends s \<noteq> [] \<Longrightarrow>
   NextIndex s =
     (Inr (unat (current s + 1) mod length (backends s)), s\<lparr>current := current s + 1\<rparr>)"
  by (simp add: NextIndex_def Let_def)

lemma GetNextPeer_all_alive:
  assumes "backends s \<noteq> []" and "\<forall>b\<in>set (backends s). Alive b"
  shows "GetNextPeer s =
     (Inr (Some (unat (current s + 1) mod length (backends s))), s\<lparr>current := current s + 1\<rparr>)"
proof -
  let ?n = "unat (current s + 1) mod length (backends s)"
  let ?s = "s\<lparr>current := current s + 1\<rparr>"
  have n: "?n < length (backends s)" using assms(1) by simp
  then have "IsAlive (backends ?s ! (?n mod length (backends ?s)))"
    using assms(2) by (simp add: IsAlive_def)
  moreover have "?n < length (backends ?s) + ?n" using assms(1) by simp
  ultimately have "GetNextPeer_loop ?s ?n (length (backends ?s) + ?n) ?n = (Some ?n, ?s)"
    using n by (simp add: GetNextPeer_loop_hit)
  then show ?thesis
    using assms(1) by (simp add: GetNextPeer_def NextIndex_nonempty Let_def)
qed

lemma GetNextPeer_scan:
  assumes "backends s \<noteq> []" and "GetNextPeer s = (Inr (Some idx), s')"
  shows "GetNextPeer_loop (s\<lparr>current := current s + 1\<rparr>)
           (unat (current s + 1) mod length (backends s))
           (length (backends s) + unat (current s + 1) mod length (backends s))
           (unat (current s + 1) mod length (backends s)) = (Some idx, s')"
  using assms
  by (simp add: GetNextPeer_def NextIndex_nonempty Let_def split: prod.splits)

lemma GetNextPeer_returns_alive:
  assumes "GetNextPeer s = (Inr (Some idx), s')"
  shows "idx < length (backends s) \<and> Alive (backends s ! idx)"
proof (cases "backends s = []")
  case True
  with assms show ?thesis by (simp add: GetNextPeer_def NextIndex_def Let_def)
next
  case False
  from GetNextPeer_loop_alive [OF _ GetNextPeer_scan [OF False assms]] False
  show ?thesis by simp
qed

lemma GetNextPeer_all_dead:
  assumes "backends s \<noteq> []" and "\<forall>b\<in>set (backends s). \<not> Alive b"
  shows "GetNextPeer s = (Inr None, s\<lparr>current := current s + 1\<rparr>)"
  using assms by (simp add: GetNextPeer_def NextIndex_nonempty Let_def GetNextPeer_loop_all_dead)

lemma GetNextPeer_store:
  assumes "GetNextPeer s = (Inr (Some idx), s')"
    and "idx \<noteq> unat (current s + 1) mod length (backends s)"
  shows "s' = s\<lparr>current := of_nat idx\<rparr>"
proof (cases "backends s = []")
  case True
  with assms show ?thesis by (simp add: GetNextPeer_def NextIndex_def Let_def)
next
  case False
  from GetNextPeer_loop_store [OF _ GetNextPeer_scan [OF False assms(1)]] assms(2) False
  show ?thesis by simp
qed

lemma selections_all_alive:
  assumes "backends s \<noteq> []" and "\<forall>b\<in>set (backends s). Alive b"
    and "unat (current s) + n < 2 ^ 64"
  shows "selections n s =
     (map (\<lambda>k. Inr (Some ((unat (current s) + 1 + k) mod length (backends s)))) [0..<n],
      s\<lparr>current := current s + of_nat n\<rparr>)"
  using assms
proof (induction n arbitrary: s)
  case 0
  then show ?case by simp
next
  case (Suc n)
  let ?s = "s\<lparr>current := current s + 1\<rparr>"
  have u: "unat (current s + 1) = unat (current s) + 1"
    using Suc.prems(3) by (simp add: unat_word_ariths)
  have step: "GetNextPeer s = (Inr (Some ((unat (current s) + 1) mod length (backends s))), ?s)"
    using GetNextPeer_all_alive [OF Suc.prems(1,2)] u by simp
  have "selections n ?s =
     (map (\<lambda>k. Inr (Some ((unat (current ?s) + 1 + k) mod length (backends ?s)))) [0..<n],
      ?s\<lparr>current := current ?s + of_nat n\<rparr>)"
    using Suc.prems u by (intro Suc.IH) simp_all
  with step u show ?case
    by (simp add: map_upt_Suc del: upt_Suc)
qed

lemma main_pool_backends:
  "backends (main_pool secure tokens) = map (newBackend secure) tokens"
proof -
  have "backends (foldl AddBackend s bs) = backends s @ bs" for s bs
    by (induction bs arbitrary: s) (simp_all add: AddBackend_def)
  then show ?thesis by (simp add: main_pool_def)
qed

lemma main_pool_nonempty: "tokens \<noteq> [] \<Longrightarrow> backends (main_pool secure tokens) \<noteq> []"
  by (simp add: main_pool_backends)

lemma main_pool_current: "current (main_pool secure tokens) = 0"
proof -
  have "current (foldl AddBackend s bs) = current s" for s bs
    by (induction bs arbitrary: s) (simp_all add: AddBackend_def)
  then show ?thesis by (simp add: main_pool_def)
qed

lemma main_pool_alive: "\<forall>b\<in>set (backends (main_pool secure tokens)). Alive b"
  by (simp add: main_pool_backends newBackend_def)

lemma rotate_upt:
  assumes "0 < n"
  shows "map (\<lambda>k. (a + k) mod n) [0..<n] = rotate (a mod n) [0..<n]"
proof (rule nth_equalityI)
  show "length (map (\<lambda>k. (a + k) mod n) [0..<n]) = length (rotate (a mod n) [0..<n])"
    by simp
next
  fix i
  assume "i < length (map (\<lambda>k. (a + k) mod n) [0..<n])"
  then have i: "i < n" by simp
  then have "rotate (a mod n) [0..<n] ! i = (a mod n + i) mod n"
    by (simp add: nth_rotate)
  also have "\<dots> = (a + i) mod n"
    by (simp add: mod_add_left_eq)
  finally show "map (\<lambda>k. (a + k) mod n) [0..<n] ! i = rotate (a mod n) [0..<n] ! i"
    using i by simp
qed

lemma GetNextPeer_first_alive:
  assumes "backends s \<noteq> []"
    and "Alive (backends s ! (unat (current s + 1) mod length (backends s)))"
  shows "GetNextPeer s =
     (Inr (Some (unat (current s + 1) mod length (backends s))), s\<lparr>current := current s + 1\<rparr>)"
proof -
  let ?n = "unat (current s + 1) mod length (backends s)"
  let ?s = "s\<lparr>current := current s + 1\<rparr>"
  have n: "?n < length (backends s)" using assms(1) by simp
  then have "IsAlive (backends ?s ! (?n mod length (backends ?s)))"
    using assms(2) by (simp add: IsAlive_def)
  moreover have "?n < length (backends ?s) + ?n" using assms(1) by simp
  ultimately have "GetNextPeer_loop ?s ?n (length (backends ?s) + ?n) ?n = (Some ?n, ?s)"
    using n by (simp add: GetNextPeer_loop_hit)
  then show ?thesis
    using assms(1) by (simp add: GetNextPeer_def NextIndex_nonempty Let_def)
qed

lemma GetNextPeer_second_alive:
  assumes "1 < length (backends s)"
    and "\<not> Alive (backends s ! (unat (current s + 1) mod length (backends s)))"
    and "Alive (backends s ! ((unat (current s + 1) mod length (backends s) + 1)
           mod length (backends s)))"
  shows "GetNextPeer s =
     (Inr (Some ((unat (current s + 1) mod length (backends s) + 1) mod length (backends s))),
      s\<lparr>current := of_nat ((unat (current s + 1) mod length (backends s) + 1)
           mod length (backends s))\<rparr>)"
proof -
  let ?N = "length (backends s)"
  let ?n = "unat (current s + 1) mod ?N"
  let ?s = "s\<lparr>current := current s + 1\<rparr>"
  have ne: "backends s \<noteq> []" using assms(1) by auto
  have n: "?n < ?N" using ne by simp
  have "GetNextPeer_loop ?s ?n (?N + ?n) ?n = GetNextPeer_loop ?s ?n (?N + ?n) (?n + 1)"
    by (rule GetNextPeer_loop_skip) (use assms(2) n ne in \<open>simp_all add: IsAlive_def\<close>)
  also have "\<dots> = (Some ((?n + 1) mod length (backends ?s)),
      if ?n + 1 \<noteq> ?n then ?s\<lparr>current := of_nat ((?n + 1) mod length (backends ?s))\<rparr> else ?s)"
    by (rule GetNextPeer_loop_hit) (use assms(1,3) in \<open>simp_all add: IsAlive_def\<close>)
  finally show ?thesis
    using ne by (simp add: GetNextPeer_def NextIndex_nonempty Let_def)
qed

lemma selections_2:
  "selections 2 s =
     (case GetNextPeer s of (r1, s1) \<Rightarrow>
        case GetNextPeer s1 of (r2, s2) \<Rightarrow> ([r1, r2], s2))"
  by (simp add: numeral_2_eq_2 split: prod.splits)

lemma selections_3:
  "selections 3 s =
     (case GetNextPeer s of (r1, s1) \<Rightarrow>
        case GetNextPeer s1 of (r2, s2) \<Rightarrow>
          case GetNextPeer s2 of (r3, s3) \<Rightarrow> ([r1, r2, r3], s3))"
  by (simp add: numeral_3_eq_3 split: prod.splits)

section \<open>What the route patterns match\<close>

lemma match_prefix_nullable: "accepts_empty r \<Longrightarrow> match_prefix r s"
  by (cases s) simp_all

lemma match_prefix_Cat_Fail: "\<not> match_prefix (Cat Fail r) s"
  by (induction s) simp_all

lemma match_prefix_Cat_Cat_Fail: "\<not> match_prefix (Cat (Cat Fail a) r) s"
  by (induction s) simp_all

lemma match_prefix_Alt: "match_prefix (Alt a b) s = (match_prefix a s \<or> match_prefix b s)"
  by (induction s arbitrary: a b) auto

lemma match_prefix_Cat_Eps: "match_prefix (Cat Eps r) s = match_prefix r s"
  by (cases s) (simp_all add: match_prefix_Alt match_prefix_Cat_Fail)

lemma match_prefix_Cat_Lit:
  "match_prefix (Cat (Lit c) r) s = (\<exists>t. s = c # t \<and> match_prefix r t)"
  by (cases s) (auto simp: match_prefix_Cat_Eps match_prefix_Cat_Fail)

lemma residual_digit: "residual c digit = (if is_digit c then Eps else Fail)"
  by (simp add: digit_def is_digit_def)

lemma accepts_empty_digit: "\<not> accepts_empty digit"
  by (simp add: digit_def)

lemma match_prefix_Cat_digit:
  "match_prefix (Cat digit r) s = (\<exists>d t. s = d # t \<and> is_digit d \<and> match_prefix r t)"
  by (cases s)
    (auto simp: residual_digit accepts_empty_digit match_prefix_Cat_Eps match_prefix_Cat_Fail)

lemma match_prefix_Cat_Plus_digit:
  assumes "accepts_empty r"
  shows "match_prefix (Cat (Plus digit) r) s = (\<exists>d t. s = d # t \<and> is_digit d)"
  using assms
  by (cases s)
    (auto simp: residual_digit accepts_empty_digit match_prefix_nullable
      match_prefix_Cat_Cat_Fail)

lemma MatchString_iff: "MatchString r s = (\<exists>u t. s = u @ t \<and> match_prefix r t)"
proof (induction s)
  case Nil
  then show ?case by simp
next
  case (Cons c cs)
  have "(\<exists>u t. c # cs = u @ t \<and> match_prefix r t) =
      (match_prefix r (c # cs) \<or> (\<exists>u t. cs = u @ t \<and> match_prefix r t))"
    by (auto simp: Cons_eq_append_conv simp del: match_prefix.simps)
  with Cons show ?case by simp
qed

text \<open>
  \<^verbatim>\<open>roomAction\<close> matches exactly the paths that contain \<^verbatim>\<open>/room/\<close> followed by a digit,
  \<^verbatim>\<open>roomConnection\<close> those that contain \<^verbatim>\<open>/ws/\<close> followed by a digit, anywhere.
\<close>

lemma MatchString_roomAction:
  "MatchString roomAction path = (\<exists>u d t. path = u @ ''/room/'' @ d # t \<and> is_digit d)"
proof -
  have "match_prefix roomAction s = (\<exists>d t. s = ''/room/'' @ d # t \<and> is_digit d)" for s
    by (auto simp: roomAction_def match_prefix_Cat_Lit match_prefix_Cat_Plus_digit)
  then show ?thesis
    by (simp add: MatchString_iff) blast
qed

lemma MatchString_roomConnection:
  "MatchString roomConnection path = (\<exists>u d t. path = u @ ''/ws/'' @ d # t \<and> is_digit d)"
proof -
  have "match_prefix roomConnection s = (\<exists>d t. s = ''/ws/'' @ d # t \<and> is_digit d)" for s
    by (auto simp: roomConnection_def match_prefix_Cat_Lit match_prefix_Cat_digit
        match_prefix_nullable)
  then show ?thesis
    by (simp add: MatchString_iff) blast
qed

section \<open>The branches of GetPeer\<close>

lemma GetPeer_in_range:
  "0 \<le> serverId roomId \<Longrightarrow> serverId roomId < int (length (backends s)) \<Longrightarrow>
   GetPeer s roomId = Inr (Some (nat (serverId roomId)))"
  by (simp add: GetPeer_def)

lemma GetPeer_beyond:
  "int (length (backends s)) < serverId roomId \<Longrightarrow> GetPeer s roomId = Inr None"
  by (simp add: GetPeer_def)

lemma GetPeer_at_size:
  "serverId roomId = int (length (backends s)) \<Longrightarrow> GetPeer s roomId = Inl IndexOutOfRange"
  by (simp add: GetPeer_def)

lemma GetPeer_negative:
  "serverId roomId < 0 \<Longrightarrow> GetPeer s roomId = Inl IndexOutOfRange"
  by (simp add: GetPeer_def)

section \<open>Running the dispatcher\<close>

lemma context_simps:
  "GetAttemptsFromContext (WithValue r Retry v) = GetAttemptsFromContext r"
  "GetRetryFromContext (WithValue r Retry v) = v"
  "GetAttemptsFromContext (WithValue r Attempts v) = v"
  "GetRetryFromContext (WithValue r Attempts v) = GetRetryFromContext r"
  "Path (WithValue r k v) = Path r"
  "GetAttemptsFromContext (inbound p) = 1"
  "GetRetryFromContext (inbound p) = 0"
  "Path (inbound p) = p"
  by (simp_all add: GetAttemptsFromContext_def GetRetryFromContext_def WithValue_def
      Attempts_def Retry_def inbound_def)

lemma main_pool_one:
  "main_pool [] [''a''] =
     \<lparr>backends = [\<lparr>URL = ''http://a'', Alive = True, ReverseProxy = ''http://a'',
                    WsReverseProxy = ''ws://a''\<rparr>], current = 0\<rparr>"
  by (simp add: main_pool_def newBackend_def AddBackend_def)

lemmas run_simps =
  lb.simps Backend_ServeHTTP.simps Backend_ServeWS.simps proxy_ServeHTTP.simps
  ErrorHandler.simps context_simps serving_def main_pool_one Let_def roomAction_def roomConnection_def
  digit_def Atoi_def is_digit_def GetPeer_def serverId_def signed_divide_int_def http_Error_def
  MarkBackendStatus_def SetAlive_def

section \<open>The bound on forwarding attempts\<close>

text \<open>
  Whatever the upstreams do, a call adds to the log of forwarding attempts at most as
  many entries as its request's counters leave room for: one per remaining retry, and
  one per remaining re-dispatch.
\<close>

lemma forwards_bound:
  "length (forwards (snd (lb up apiPrefix r w))) \<le> length (forwards w) +
     (if 3 < GetAttemptsFromContext r then 0
      else nat (4 - GetAttemptsFromContext r) + nat (3 - GetRetryFromContext r))"
  "length (forwards (snd (Backend_ServeHTTP up apiPrefix peer r w))) \<le> length (forwards w) +
     max 1 (nat (4 - GetAttemptsFromContext r)) + nat (3 - GetRetryFromContext r)"
  "length (forwards (snd (Backend_ServeWS up apiPrefix peer r w))) \<le> length (forwards w) +
     max 1 (nat (4 - GetAttemptsFromContext r)) + nat (3 - GetRetryFromContext r)"
  "length (forwards (snd (proxy_ServeHTTP up apiPrefix u r w))) \<le> length (forwards w) +
     max 1 (nat (4 - GetAttemptsFromContext r)) + nat (3 - GetRetryFromContext r)"
  "length (forwards (snd (ErrorHandler up apiPrefix u r w))) \<le> length (forwards w) +
     (max 1 (nat (4 - GetAttemptsFromContext r)) - 1) + nat (3 - GetRetryFromContext r)"
proof (induction up apiPrefix r w and up apiPrefix peer r w and up apiPrefix peer r w
    and up apiPrefix u r w and up apiPrefix u r w
    rule: lb_Backend_ServeHTTP_Backend_ServeWS_proxy_ServeHTTP_ErrorHandler.induct)
  case (1 up apiPrefix r w)
  let ?B = "nat (4 - GetAttemptsFromContext r) + nat (3 - GetRetryFromContext r)"
  show ?case
  proof (cases "3 < GetAttemptsFromContext r")
    case True
    then show ?thesis
      by (simp add: lb.simps http_Error_def)
  next
    case cap: False
    then have m: "max 1 (nat (4 - GetAttemptsFromContext r)) = nat (4 - GetAttemptsFromContext r)"
      by simp
    show ?thesis
    proof (cases "Path r = apiPrefix @ ''/room''")
      case True
      obtain res p' where g: "GetNextPeer (pool w) = (res, p')"
        by fastforce
      show ?thesis
      proof (cases res)
        case (Inl e)
        with cap True g show ?thesis
          by (simp add: lb.simps Let_def)
      next
        case (Inr b)
        show ?thesis
        proof (cases b)
          case None
          with cap True g Inr show ?thesis
            by (simp add: lb.simps Let_def http_Error_def)
        next
          case (Some peer)
          from "1.IH"(1) [OF refl cap refl True g [symmetric] Inr Some, unfolded m]
          have "length (forwards (snd (Backend_ServeHTTP up apiPrefix peer r (w\<lparr>pool := p'\<rparr>))))
              \<le> length (forwards w) + ?B"
            by simp
          with cap True g Inr Some show ?thesis
            by (simp add: lb.simps Let_def)
        qed
      qed
    next
      case False
      let ?sch = "if MatchString roomAction (Path r) then Some ''ws''
        else if MatchString roomConnection (Path r) then Some ''http'' else None"
      let ?s = "Split (Path r) CHR ''/''"
      show ?thesis
      proof (cases ?sch)
        case None
        with cap False show ?thesis
          by (simp add: lb.simps Let_def http_Error_def)
      next
        case (Some scheme)
        show ?thesis
        proof (cases "length ?s \<le> 2")
          case True
          with cap False Some show ?thesis
            by (simp add: lb.simps Let_def)
        next
          case long: False
          show ?thesis
          proof (cases "GetPeer (pool w) (fst (Atoi (?s ! 2)))")
            case (Inl e)
            with cap False Some long show ?thesis
              by (simp add: lb.simps Let_def)
          next
            case (Inr b)
            show ?thesis
            proof (cases b)
              case None
              with cap False Some long Inr show ?thesis
                by (simp add: lb.simps Let_def http_Error_def)
            next
              case peer: (Some peer)
              let ?run = "if scheme = ''ws'' then Backend_ServeWS up apiPrefix peer r w
                else if scheme = ''http'' then Backend_ServeHTTP up apiPrefix peer r w
                else (None, w)"
              have run: "length (forwards (snd ?run)) \<le> length (forwards w) + ?B"
              proof (cases "scheme = ''ws''")
                case True
                from "1.IH"(2) [OF refl cap refl False Some refl long refl Inr peer True, unfolded m]
                show ?thesis using True by simp
              next
                case nws: False
                show ?thesis
                proof (cases "scheme = ''http''")
                  case True
                  from "1.IH"(3) [OF refl cap refl False Some refl long refl Inr peer nws True, unfolded m]
                  show ?thesis using nws True by simp
                next
                  case False
                  with nws show ?thesis by simp
                qed
              qed
              have "lb up apiPrefix r w =
                  (case ?run of (Some e, w') \<Rightarrow> (Some e, w')
                   | (None, w') \<Rightarrow> (None, http_Error w' ''Service not available'' 503))"
                using cap False Some long Inr peer
                by (simp add: lb.simps Let_def)
              then have "forwards (snd (lb up apiPrefix r w)) = forwards (snd ?run)"
                by (simp add: http_Error_def split: prod.splits option.splits)
              with run cap show ?thesis
                by simp
            qed
          qed
        qed
      qed
    qed
  qed
next
  case (2 up apiPrefix peer r w)
  then show ?case by (simp add: Backend_ServeHTTP.simps)
next
  case (3 up apiPrefix peer r w)
  then show ?case by (simp add: Backend_ServeWS.simps)
next
  case (4 up apiPrefix u r w)
  show ?case
  proof (cases "up (length (forwards w))")
    case True
    then show ?thesis by (simp add: proxy_ServeHTTP.simps Let_def)
  next
    case False
    with "4.IH" [OF refl refl False] show ?thesis
      by (simp add: proxy_ServeHTTP.simps Let_def)
  qed
next
  case (5 up apiPrefix u r w)
  show ?case
  proof (cases "GetRetryFromContext r < 3")
    case True
    with "5.IH"(1) [OF refl True] show ?thesis
      by (simp add: ErrorHandler.simps Let_def context_simps)
  next
    case False
    with "5.IH"(2) [OF refl False refl refl] show ?thesis
      by (simp add: ErrorHandler.simps Let_def context_simps split: if_splits)
  qed
qed

text \<open>An inbound request causes at most six forwarding attempts, whatever its path.\<close>

lemma inbound_forwards_bound:
  "length (forwards (snd (lb up apiPrefix (inbound path) (serving p)))) \<le> 6"
  using forwards_bound(1) [of up apiPrefix "inbound path" "serving p"]
  by (simp add: context_simps serving_def)

section \<open>The terminal 503 when every forward fails\<close>

text \<open>
  When no forwarding attempt reaches its upstream, a request whose path is routed gets,
  unless the run panics, a 503 as the first thing written to its client.
\<close>

lemma all_fail_503:
  "Path r = apiPrefix @ ''/room'' \<or> MatchString roomAction (Path r) \<or>
     MatchString roomConnection (Path r) \<Longrightarrow>
   fst (lb up apiPrefix r w) = None \<Longrightarrow> \<forall>k. \<not> up k \<Longrightarrow>
   \<exists>m xs. response (snd (lb up apiPrefix r w)) = response w @ HttpError 503 m # xs"
  "Path r = apiPrefix @ ''/room'' \<or> MatchString roomAction (Path r) \<or>
     MatchString roomConnection (Path r) \<Longrightarrow>
   fst (Backend_ServeHTTP up apiPrefix peer r w) = None \<Longrightarrow> \<forall>k. \<not> up k \<Longrightarrow>
   \<exists>m xs. response (snd (Backend_ServeHTTP up apiPrefix peer r w)) =
     response w @ HttpError 503 m # xs"
  "Path r = apiPrefix @ ''/room'' \<or> MatchString roomAction (Path r) \<or>
     MatchString roomConnection (Path r) \<Longrightarrow>
   fst (Backend_ServeWS up apiPrefix peer r w) = None \<Longrightarrow> \<forall>k. \<not> up k \<Longrightarrow>
   \<exists>m xs. response (snd (Backend_ServeWS up apiPrefix peer r w)) =
     response w @ HttpError 503 m # xs"
  "Path r = apiPrefix @ ''/room'' \<or> MatchString roomAction (Path r) \<or>
     MatchString roomConnection (Path r) \<Longrightarrow>
   fst (proxy_ServeHTTP up apiPrefix u r w) = None \<Longrightarrow> \<forall>k. \<not> up k \<Longrightarrow>
   \<exists>m xs. response (snd (proxy_ServeHTTP up apiPrefix u r w)) =
     response w @ HttpError 503 m # xs"
  "Path r = apiPrefix @ ''/room'' \<or> MatchString roomAction (Path r) \<or>
     MatchString roomConnection (Path r) \<Longrightarrow>
   fst (ErrorHandler up apiPrefix u r w) = None \<Longrightarrow> \<forall>k. \<not> up k \<Longrightarrow>
   \<exists>m xs. response (snd (ErrorHandler up apiPrefix u r w)) =
     response w @ HttpError 503 m # xs"
proof (induction up apiPrefix r w and up apiPrefix peer r w and up apiPrefix peer r w
    and up apiPrefix u r w and up apiPrefix u r w
    rule: lb_Backend_ServeHTTP_Backend_ServeWS_proxy_ServeHTTP_ErrorHandler.induct)
  case (1 up apiPrefix r w)
  note routed = "1.prems"(1) and ok = "1.prems"(2) and down = "1.prems"(3)
  show ?case
  proof (cases "3 < GetAttemptsFromContext r")
    case True
    then show ?thesis
      by (simp add: lb.simps http_Error_def)
  next
    case cap: False
    show ?thesis
    proof (cases "Path r = apiPrefix @ ''/room''")
      case True
      obtain res p' where g: "GetNextPeer (pool w) = (res, p')"
        by fastforce
      show ?thesis
      proof (cases res)
        case (Inl e)
        with cap True g ok show ?thesis
          by (simp add: lb.simps Let_def)
      next
        case (Inr b)
        show ?thesis
        proof (cases b)
          case None
          with cap True g Inr show ?thesis
            by (simp add: lb.simps Let_def http_Error_def)
        next
          case (Some peer)
          have eq: "lb up apiPrefix r w = Backend_ServeHTTP up apiPrefix peer r (w\<lparr>pool := p'\<rparr>)"
            using cap True g Inr Some by (simp add: lb.simps Let_def)
          from "1.IH"(1) [OF refl cap refl True g [symmetric] Inr Some routed _ down] ok
          show ?thesis
            unfolding eq by simp
        qed
      qed
    next
      case False
      let ?sch = "if MatchString roomAction (Path r) then Some ''ws''
        else if MatchString roomConnection (Path r) then Some ''http'' else None"
      let ?s = "Split (Path r) CHR ''/''"
      show ?thesis
      proof (cases ?sch)
        case None
        with routed False show ?thesis
          by (simp split: if_splits)
      next
        case (Some scheme)
        show ?thesis
        proof (cases "length ?s \<le> 2")
          case True
          with cap False Some ok show ?thesis
            by (simp add: lb.simps Let_def)
        next
          case long: False
          show ?thesis
          proof (cases "GetPeer (pool w) (fst (Atoi (?s ! 2)))")
            case (Inl e)
            with cap False Some long ok show ?thesis
              by (simp add: lb.simps Let_def)
          next
            case (Inr b)
            show ?thesis
            proof (cases b)
              case None
              with cap False Some long Inr show ?thesis
                by (simp add: lb.simps Let_def http_Error_def)
            next
              case peer: (Some peer)
              let ?run = "if scheme = ''ws'' then Backend_ServeWS up apiPrefix peer r w
                else if scheme = ''http'' then Backend_ServeHTTP up apiPrefix peer r w
                else (None, w)"
              have eq: "lb up apiPrefix r w =
                  (case ?run of (Some e, w') \<Rightarrow> (Some e, w')
                   | (None, w') \<Rightarrow> (None, http_Error w' ''Service not available'' 503))"
                using cap False Some long Inr peer
                by (simp add: lb.simps Let_def)
              with ok have fine: "fst ?run = None"
                by (auto split: prod.splits option.splits)
              have "\<exists>m xs. response (snd ?run) = response w @ HttpError 503 m # xs"
              proof (cases "scheme = ''ws''")
                case True
                from "1.IH"(2) [OF refl cap refl False Some refl long refl Inr peer True
                    routed _ down] fine True
                show ?thesis by simp
              next
                case nws: False
                with Some have http: "scheme = ''http''"
                  by (auto split: if_splits)
                from "1.IH"(3) [OF refl cap refl False Some refl long refl Inr peer nws http
                    routed _ down] fine nws http
                show ?thesis by simp
              qed
              then obtain m xs where res: "response (snd ?run) = response w @ HttpError 503 m # xs"
                by blast
              obtain wr where run: "?run = (None, wr)"
                using fine by (cases ?run) simp
              from res have "response wr = response w @ HttpError 503 m # xs"
                unfolding run by simp
              then have "response (snd (lb up apiPrefix r w)) =
                  response w @ HttpError 503 m # (xs @ [HttpError 503 ''Service not available''])"
                unfolding eq run by (simp add: http_Error_def)
              then show ?thesis
                by blast
            qed
          qed
        qed
      qed
    qed
  qed
next
  case (2 up apiPrefix peer r w)
  then show ?case by (simp add: Backend_ServeHTTP.simps)
next
  case (3 up apiPrefix peer r w)
  then show ?case by (simp add: Backend_ServeWS.simps)
next
  case (4 up apiPrefix u r w)
  from "4.prems"(3) have down: "\<not> up (length (forwards w))"
    by simp
  have eq: "proxy_ServeHTTP up apiPrefix u r w =
      ErrorHandler up apiPrefix u r (w\<lparr>forwards := forwards w @ [u]\<rparr>)"
    using down by (simp add: proxy_ServeHTTP.simps Let_def)
  from "4.IH" [OF refl refl down "4.prems"(1) _ "4.prems"(3)] "4.prems"(2)
  show ?case
    unfolding eq by simp
next
  case (5 up apiPrefix u r w)
  show ?case
  proof (cases "GetRetryFromContext r < 3")
    case True
    have eq: "ErrorHandler up apiPrefix u r w =
        proxy_ServeHTTP up apiPrefix u (WithValue r Retry (GetRetryFromContext r + 1)) w"
      using True by (simp add: ErrorHandler.simps Let_def)
    from "5.IH"(1) [OF refl True _ _ "5.prems"(3)] "5.prems"(1,2)
    show ?thesis
      unfolding eq by (simp add: context_simps)
  next
    case False
    have eq: "ErrorHandler up apiPrefix u r w =
        lb up apiPrefix (WithValue r Attempts (GetAttemptsFromContext r + 1))
          (w\<lparr>pool := MarkBackendStatus (pool w) u False\<rparr>)"
      using False by (simp add: ErrorHandler.simps Let_def)
    from "5.IH"(2) [OF refl False refl refl _ _ "5.prems"(3)] "5.prems"(1,2)
    show ?thesis
      unfolding eq by (simp add: context_simps)
  qed
qed

lemma inbound_all_fail_503:
  assumes "path = apiPrefix @ ''/room'' \<or> MatchString roomAction path \<or>
      MatchString roomConnection path"
    and "fst (lb (\<lambda>k. False) apiPrefix (inbound path) (serving p)) = None"
  shows "status (response (snd (lb (\<lambda>k. False) apiPrefix (inbound path) (serving p)))) = Some 503"
proof -
  from all_fail_503(1) [of "inbound path" apiPrefix "\<lambda>k. False" "serving p"] assms
  obtain m xs where "response (snd (lb (\<lambda>k. False) apiPrefix (inbound path) (serving p))) =
      HttpError 503 m # xs"
    by (auto simp: context_simps serving_def)
  then show ?thesis by simp
qed

section \<open>A forward that succeeds\<close>

text \<open>
  A room-scoped request whose first forward succeeds has the upstream response followed
  by a 503; a room-creation request has the upstream response only.
\<close>

lemma room_scoped_success:
  assumes "GetAttemptsFromContext r \<le> 3"
    and "Path r \<noteq> apiPrefix @ ''/room''"
    and "MatchString roomAction (Path r) \<or> MatchString roomConnection (Path r)"
    and "2 < length (Split (Path r) CHR ''/'')"
    and "GetPeer (pool w) (fst (Atoi (Split (Path r) CHR ''/'' ! 2))) = Inr (Some peer)"
    and "up (length (forwards w))"
  shows "lb up apiPrefix r w =
     (let u = (if MatchString roomAction (Path r) then WsReverseProxy (backends (pool w) ! peer)
               else ReverseProxy (backends (pool w) ! peer))
      in (None, w\<lparr>forwards := forwards w @ [u],
                   response := response w @ [Upstream u, HttpError 503 ''Service not available'']\<rparr>))"
  using assms
  by (auto simp: lb.simps Backend_ServeHTTP.simps Backend_ServeWS.simps proxy_ServeHTTP.simps
      Let_def http_Error_def)

lemma room_creation_success:
  assumes "GetAttemptsFromContext r \<le> 3"
    and "Path r = apiPrefix @ ''/room''"
    and "GetNextPeer (pool w) = (Inr (Some peer), p')"
    and "up (length (forwards w))"
  shows "lb up apiPrefix r w =
     (None, w\<lparr>pool := p', forwards := forwards w @ [ReverseProxy (backends p' ! peer)],
               response := response w @ [Upstream (ReverseProxy (backends p' ! peer))]\<rparr>)"
  using assms
  by (simp add: lb.simps Backend_ServeHTTP.simps proxy_ServeHTTP.simps Let_def)

section \<open>Which backend the error handler marks\<close>

lemma MarkBackendStatus_no_match:
  "\<forall>b\<in>set (backends s). URL b \<noteq> u \<Longrightarrow> MarkBackendStatus s u alive = s"
proof -
  have "\<forall>b\<in>set bs. URL b \<noteq> u \<Longrightarrow> MarkBackendStatus_loop bs u alive = bs" for bs
    by (induction bs) simp_all
  then show "\<forall>b\<in>set (backends s). URL b \<noteq> u \<Longrightarrow> MarkBackendStatus s u alive = s"
    by (simp add: MarkBackendStatus_def)
qed

text \<open>
  No backend registered by \<open>main\<close> has the URL of a proxy for upgraded connections, so
  the error handler of such a proxy never changes the pool \<open>main\<close> built.
\<close>

lemma MarkBackendStatus_ws_proxy:
  "MarkBackendStatus (main_pool secure tokens) (WsReverseProxy (newBackend secure tok)) alive =
     main_pool secure tokens"
  by (rule MarkBackendStatus_no_match) (simp add: main_pool_backends newBackend_def)

text \<open>The error handler of a plain proxy marks the first backend with its URL.\<close>

lemma MarkBackendStatus_own_url:
  "MarkBackendStatus_loop (b # bs) (URL b) False = b\<lparr>Alive := False\<rparr> # bs"
  by (simp add: SetAlive_def)

text \<open>
  On the room-creation path the forwards go through the proxy created for the backend's
  own URL, and a backend whose retries are exhausted is dead afterwards.
\<close>

lemma room_creation_exhaustion_marks_backend_dead:
  "lb (\<lambda>k. False) [] (inbound ''/room'') (serving (main_pool [] [''a''])) =
     (None, \<lparr>pool = \<lparr>backends = [(newBackend [] ''a'')\<lparr>Alive := False\<rparr>], current = 2\<rparr>,
        forwards = [''http://a'', ''http://a'', ''http://a'', ''http://a''],
        response = [HttpError 503 ''Service not available'']\<rparr>)"
  by (simp add: run_simps newBackend_def GetNextPeer_def NextIndex_def
      GetNextPeer_loop.simps IsAlive_def)

section \<open>The claims\<close>

text \<open>
  C1 (code defect). The claim: \<open>GetPeer\<close> returns the backend at position
  \<open>(roomId - 1) div 10000\<close> only when that index is strictly less than the pool size,
  and none when it is greater or equal. The guard of the code is \<open>\<le>\<close>: with three
  backends, room 30001 has index 3, passes the guard, and the slice access panics
  instead of returning none.
\<close>

theorem GetPeer_index_equal_size_panics:
  "length (backends (main_pool [] [''A'', ''B'', ''C''])) = 3 \<and>
   serverId 30001 = 3 \<and>
   GetPeer (main_pool [] [''A'', ''B'', ''C'']) 30001 = Inl IndexOutOfRange"
  by (simp add: main_pool_backends GetPeer_def serverId_def signed_divide_int_def)

text \<open>
  C2 (code defect). The claim: a request whose forwarding attempts all fail causes at
  most nine of them before its 503, and the first backend whose retries are exhausted
  is marked dead. On the room-action path \<^verbatim>\<open>/room/1\<close> the forwards go through the proxy
  created for the \<^verbatim>\<open>ws://\<close> URL; its error handler passes that URL to
  \<open>MarkBackendStatus\<close>, which compares it with the \<^verbatim>\<open>http://\<close> URL of the backend and
  marks nothing: after six failed forwards and the 503 the backend is still alive.
\<close>

theorem room_action_exhaustion_leaves_backend_alive:
  "lb (\<lambda>k. False) [] (inbound ''/room/1'') (serving (main_pool [] [''a''])) =
     (None, \<lparr>pool = main_pool [] [''a''],
        forwards = [''ws://a'', ''ws://a'', ''ws://a'', ''ws://a'', ''ws://a'', ''ws://a''],
        response = [HttpError 503 ''Service not available'',
          HttpError 503 ''Service not available'', HttpError 503 ''Service not available'',
          HttpError 503 ''Service not available'']\<rparr>) \<and>
   list_all Alive (backends (pool (snd
     (lb (\<lambda>k. False) [] (inbound ''/room/1'') (serving (main_pool [] [''a'']))))))"
  by (simp add: run_simps)

text \<open>
  C3 (code defect). The claim: after a successful forward of a room-scoped request the
  dispatcher writes nothing more to the client. The room-creation branch of \<open>lb\<close>
  returns after \<^verbatim>\<open>peer.ServeHTTP\<close>; the room-scoped branch does not, and falls through
  to the final \<^verbatim>\<open>http.Error\<close>: on \<^verbatim>\<open>/ws/1\<close> with a reachable backend, the upstream
  response is followed by a 503 "Service not available".
\<close>

theorem room_scoped_success_then_503:
  "lb (\<lambda>k. True) [] (inbound ''/ws/1'') (serving (main_pool [] [''a''])) =
     (None, \<lparr>pool = main_pool [] [''a''], forwards = [''http://a''],
        response = [Upstream ''http://a'', HttpError 503 ''Service not available'']\<rparr>)"
  by (simp add: run_simps)

text \<open>
  C4 (counterexample). The claim: from cursor 0 the pool [A, B, C] serves A, B, C, A.
  \<open>NextIndex\<close> adds one before it reads the cursor, so the first selection is B.
\<close>

theorem round_robin_from_zero_counterexample:
  "fst (selections 4 (main_pool [] [''A'', ''B'', ''C''])) \<noteq>
     [Inr (Some 0), Inr (Some 1), Inr (Some 2), Inr (Some 0)]"
proof -
  have "fst (selections 4 (main_pool [] [''A'', ''B'', ''C''])) =
     map (\<lambda>k. Inr (Some ((unat (0 :: uint64) + 1 + k) mod 3))) [0..<4]"
    using selections_all_alive [of "main_pool [] [''A'', ''B'', ''C'']" 4]
    by (simp add: main_pool_backends main_pool_current newBackend_def)
  also have "[0..<4] = [0, 1, 2, 3 :: nat]"
    by (simp add: upt_rec)
  finally show ?thesis by simp
qed

text \<open>
  C4 (amended). With three backends registered by \<open>main\<close> (all alive, cursor 0), the
  \<open>k\<close>-th of fewer than \<open>2 ^ 64\<close> successive selections, counted from 0, returns the
  backend at position \<open>(k + 1) mod 3\<close>: B, C, A, B, and so on.
\<close>

theorem round_robin_from_zero:
  assumes "n < 2 ^ 64"
  shows "fst (selections n (main_pool secure [a, b, c])) =
     map (\<lambda>k. Inr (Some ((k + 1) mod 3))) [0..<n]"
  using selections_all_alive [of "main_pool secure [a, b, c]" n] assms
  by (simp add: main_pool_backends main_pool_current newBackend_def)

theorem round_robin_from_zero_witness:
  "(4 :: nat) < 2 ^ 64 \<and>
   fst (selections 4 (main_pool [] [''A'', ''B'', ''C''])) =
     [Inr (Some 1), Inr (Some 2), Inr (Some 0), Inr (Some 1)]"
proof -
  have "[0..<4] = [0, 1, 2, 3 :: nat]"
    by (simp add: upt_rec)
  with round_robin_from_zero [of 4 "[]" "''A''" "''B''" "''C''"] show ?thesis
    by simp
qed

text \<open>
  C5 (counterexample). The claim: on a freshly arrived request both counters read zero.
  \<open>GetAttemptsFromContext\<close> returns 1 when the context holds no attempts value.
\<close>

theorem fresh_attempts_counterexample:
  "GetAttemptsFromContext (inbound ''/room'') \<noteq> 0"
  by (simp add: GetAttemptsFromContext_def inbound_def)

text \<open>
  C5 (amended). On a freshly arrived request the attempts counter reads 1 and the
  retries counter reads 0.
\<close>

theorem fresh_counters:
  "GetAttemptsFromContext (inbound path) = 1 \<and> GetRetryFromContext (inbound path) = 0"
  by (simp add: GetAttemptsFromContext_def GetRetryFromContext_def inbound_def)




text \<open>
  C7 (counterexample). The claim: with all backends alive, \<open>N\<close> consecutive selections
  return each backend once. The cursor is a \<^verbatim>\<open>uint64\<close>: two below its maximum, the three
  selections on [A, B, C] are A, A, B, since \<open>2 ^ 64 - 1\<close> and 0 are both multiples of 3.
\<close>

theorem round_robin_wraparound_counterexample:
  "fst (selections 3 ((main_pool [] [''A'', ''B'', ''C''])\<lparr>current := 18446744073709551614\<rparr>)) =
     [Inr (Some 0), Inr (Some 0), Inr (Some 1)]"
proof -
  let ?p = "\<lambda>c. (main_pool [] [''A'', ''B'', ''C''])\<lparr>current := c\<rparr>"
  have step: "GetNextPeer (?p c) = (Inr (Some (unat (c + 1) mod 3)), ?p (c + 1))" for c
    using GetNextPeer_all_alive [of "?p c"]
    by (simp add: main_pool_backends newBackend_def)
  show ?thesis
    by (simp add: selections_3 step unsigned_minus_1_eq_mask mask_eq_exp_minus_1)
qed

text \<open>
  C7 (amended). For every pool of \<open>N \<ge> 1\<close> backends, all alive, \<open>N\<close> consecutive
  selections during which the 64-bit cursor does not wrap around return every position
  exactly once, in the cyclic order of insertion: the positions \<open>0, ..., N - 1\<close> rotated
  to start at \<open>(cursor + 1) mod N\<close>.
\<close>

theorem round_robin_visits_each_once:
  assumes "backends s \<noteq> []" and "\<forall>b\<in>set (backends s). Alive b"
    and "unat (current s) + length (backends s) < 2 ^ 64"
  shows "fst (selections (length (backends s)) s) =
           map (\<lambda>i. Inr (Some i))
             (rotate ((unat (current s) + 1) mod length (backends s)) [0..<length (backends s)]) \<and>
         distinct (fst (selections (length (backends s)) s)) \<and>
         set (fst (selections (length (backends s)) s)) =
           (\<lambda>i. Inr (Some i)) ` {0..<length (backends s)}"
proof -
  let ?N = "length (backends s)"
  let ?a = "unat (current s) + 1"
  have N: "0 < ?N" using assms(1) by simp
  have "fst (selections ?N s) = map (\<lambda>k. Inr (Some ((?a + k) mod ?N))) [0..<?N]"
    using selections_all_alive [OF assms] by simp
  also have "\<dots> = map (\<lambda>i. Inr (Some i)) (map (\<lambda>k. (?a + k) mod ?N) [0..<?N])"
    by simp
  also have "\<dots> = map (\<lambda>i. Inr (Some i)) (rotate (?a mod ?N) [0..<?N])"
    by (simp only: rotate_upt [OF N])
  finally have eq: "fst (selections ?N s) =
      map (\<lambda>i. Inr (Some i)) (rotate (?a mod ?N) [0..<?N])" .
  have "distinct (fst (selections ?N s))"
    unfolding eq by (simp add: distinct_map inj_on_def)
  moreover have "set (fst (selections ?N s)) = (\<lambda>i. Inr (Some i)) ` {0..<?N}"
    unfolding eq by simp
  ultimately show ?thesis
    using eq by blast
qed

theorem round_robin_visits_each_once_witness:
  "backends (main_pool [] [''A'', ''B'', ''C'']) \<noteq> [] \<and>
   list_all Alive (backends (main_pool [] [''A'', ''B'', ''C''])) \<and>
   fst (selections 3 (main_pool [] [''A'', ''B'', ''C''])) =
     [Inr (Some 1), Inr (Some 2), Inr (Some 0)]"
proof -
  let ?p = "main_pool [] [''A'', ''B'', ''C'']"
  have ne: "backends ?p \<noteq> []" and alive: "\<forall>b\<in>set (backends ?p). Alive b"
    and room: "unat (current ?p) + length (backends ?p) < 2 ^ 64"
    by (simp_all add: main_pool_backends main_pool_current newBackend_def)
  have len: "length (backends ?p) = 3"
    by (simp add: main_pool_backends)
  have "[0..<3] = [0, 1, 2 :: nat]"
    by (simp add: upt_rec)
  with round_robin_visits_each_once [OF ne alive room, unfolded len]
  have "fst (selections 3 ?p) = [Inr (Some 1), Inr (Some 2), Inr (Some 0)]"
    by (simp add: main_pool_current)
  with ne alive show ?thesis
    by (simp add: list_all_iff)
qed

text \<open>
  C8. \<open>GetNextPeer\<close> never returns a backend whose liveness flag is false, and on a
  pool (non-empty, as it is once \<open>main\<close> serves) whose backends are all dead it
  returns none.
\<close>

theorem GetNextPeer_never_dead:
  "(\<forall>idx s'. GetNextPeer s = (Inr (Some idx), s') \<longrightarrow>
      idx < length (backends s) \<and> Alive (backends s ! idx)) \<and>
   (backends s \<noteq> [] \<and> (\<forall>b\<in>set (backends s). \<not> Alive b) \<longrightarrow>
      fst (GetNextPeer s) = Inr None)"
  using GetNextPeer_returns_alive [of s] GetNextPeer_all_dead [of s]
  by auto

theorem GetNextPeer_never_dead_witness:
  "GetNextPeer \<lparr>backends = [(newBackend [] ''A'')\<lparr>Alive := False\<rparr>, newBackend [] ''B''],
                 current = 0\<rparr> =
     (Inr (Some 1),
      \<lparr>backends = [(newBackend [] ''A'')\<lparr>Alive := False\<rparr>, newBackend [] ''B''], current = 1\<rparr>) \<and>
   Alive ([(newBackend [] ''A'')\<lparr>Alive := False\<rparr>, newBackend [] ''B''] ! 1) \<and>
   fst (GetNextPeer \<lparr>backends = [(newBackend [] ''A'')\<lparr>Alive := False\<rparr>], current = 0\<rparr>) =
     Inr None"
proof -
  let ?a = "(newBackend [] ''A'')\<lparr>Alive := False\<rparr>"
  let ?p = "\<lparr>backends = [?a, newBackend [] ''B''], current = 0\<rparr>"
  let ?q = "\<lparr>backends = [?a], current = 0\<rparr>"
  have run: "GetNextPeer ?p = (Inr (Some 1), ?p\<lparr>current := 1\<rparr>)"
    using GetNextPeer_first_alive [of ?p]
    by (simp add: newBackend_def)
  have dead: "backends ?q \<noteq> [] \<and> (\<forall>b\<in>set (backends ?q). \<not> Alive b)"
    by simp
  from GetNextPeer_never_dead [of ?p] run have "Alive (backends ?p ! 1)"
    by blast
  moreover from GetNextPeer_never_dead [of ?q] dead have "fst (GetNextPeer ?q) = Inr None"
    by blast
  ultimately show ?thesis
    using run by simp
qed

text \<open>
  C9. Pool [A, B, C] with B marked dead, at a cursor whose raw next index is B's
  position (as at the starting cursor 0): the next two selections return C and then A,
  and the first of them leaves the cursor at C's position. In general, whenever
  \<open>GetNextPeer\<close> returns a backend that is not at the raw \<open>NextIndex\<close> position, the
  cursor is stored at the position of the returned backend.
\<close>

theorem skip_dead_backend:
  "(backends s = [a, b, c] \<and> Alive a \<and> \<not> Alive b \<and> Alive c \<and>
    unat (current s + 1) mod 3 = 1 \<longrightarrow>
      fst (selections 2 s) = [Inr (Some 2), Inr (Some 0)] \<and>
      current (snd (GetNextPeer s)) = 2) \<and>
   (\<forall>idx s'. GetNextPeer s = (Inr (Some idx), s') \<and>
      idx \<noteq> unat (current s + 1) mod length (backends s) \<longrightarrow>
        s' = s\<lparr>current := of_nat idx\<rparr>)"
proof -
  have "fst (selections 2 s) = [Inr (Some 2), Inr (Some 0)] \<and> current (snd (GetNextPeer s)) = 2"
    if bs: "backends s = [a, b, c]" and al: "Alive a" "\<not> Alive b" "Alive c"
      and raw: "unat (current s + 1) mod 3 = 1"
  proof -
    let ?t = "s\<lparr>current := 2\<rparr>"
    have len: "length (backends s) = 3" and ne: "backends s \<noteq> []"
      and at0: "backends s ! 0 = a" and at1: "backends s ! 1 = b" and at2: "backends s ! 2 = c"
      using bs by simp_all
    have two: "(1 + 1) mod 3 = (2 :: nat)"
      by simp
    have p1: "1 < length (backends s)"
      by (simp add: len)
    have p2: "\<not> Alive (backends s ! (unat (current s + 1) mod length (backends s)))"
      unfolding len raw at1 by (rule al(2))
    have p3: "Alive (backends s ! ((unat (current s + 1) mod length (backends s) + 1)
           mod length (backends s)))"
      unfolding len raw two at2 by (rule al(3))
    have first: "GetNextPeer s = (Inr (Some 2), ?t)"
      using GetNextPeer_second_alive [OF p1 p2 p3] unfolding len raw two by simp
    have tlen: "length (backends ?t) = 3" and tne: "backends ?t \<noteq> []"
      and tat0: "backends ?t ! 0 = a"
      using bs by simp_all
    have tidx: "unat (current ?t + 1) mod length (backends ?t) = 0"
      unfolding tlen by simp
    have q2: "Alive (backends ?t ! (unat (current ?t + 1) mod length (backends ?t)))"
      unfolding tidx tat0 by (rule al(1))
    have second: "GetNextPeer ?t = (Inr (Some 0), s\<lparr>current := 3\<rparr>)"
      using GetNextPeer_first_alive [OF tne q2] unfolding tidx by simp
    show ?thesis
      by (simp add: selections_2 first second)
  qed
  then show ?thesis
    using GetNextPeer_store [of s] by blast
qed

theorem skip_dead_backend_witness:
  "fst (selections 2 \<lparr>backends = [newBackend [] ''A'', (newBackend [] ''B'')\<lparr>Alive := False\<rparr>,
                                    newBackend [] ''C''], current = 0\<rparr>) =
     [Inr (Some 2), Inr (Some 0)] \<and>
   current (snd (GetNextPeer \<lparr>backends = [newBackend [] ''A'',
      (newBackend [] ''B'')\<lparr>Alive := False\<rparr>, newBackend [] ''C''], current = 0\<rparr>)) = 2"
  using skip_dead_backend [of "\<lparr>backends = [newBackend [] ''A'',
      (newBackend [] ''B'')\<lparr>Alive := False\<rparr>, newBackend [] ''C''], current = 0\<rparr>"
      "newBackend [] ''A''" "(newBackend [] ''B'')\<lparr>Alive := False\<rparr>" "newBackend [] ''C''"]
  by (simp add: newBackend_def)



end
